theory Spec2Isabelle
  imports Complex_Main "HOL-Library.AList" "HOL-Library.Word"
begin

section \<open>Errors raised by the Python code\<close>

datatype py_error = KeyError | IndexError | UnboundLocalError | RuntimeError | NetworkXError

section \<open>The networkx graph, as \<^verbatim>\<open>net_utilities.py\<close> uses it\<close>

text \<open>
  A \<^verbatim>\<open>nx.Graph\<close> keeps a dictionary from each node to the dictionary of its
  neighbours, which maps a neighbour to the attribute dictionary of the edge. Python
  dictionaries iterate in insertion order, and both the scan over \<^verbatim>\<open>G.nodes()\<close>
  and the choice \<^verbatim>\<open>neighbors[0]\<close>, \<^verbatim>\<open>neighbors[1]\<close> depend on that order, so
  both levels are association lists. Nodes are the integer ids \<open>0..N-1\<close> that
  \<^verbatim>\<open>nx.Graph(adjacency_matrix)\<close> gives them. The edge attributes are the two the
  pipeline sets on every edge, \<^verbatim>\<open>weight\<close> and \<^verbatim>\<open>conductivity\<close>; Python floats are
  modelled as reals.
\<close>

type_synonym node = nat

record edge_attr =
  weight :: real
  conductivity :: real

type_synonym adjdict = "(node \<times> edge_attr) list"

type_synonym graph = "(node \<times> adjdict) list"

text \<open>\<^verbatim>\<open>G.order()\<close> and \<^verbatim>\<open>len(list(G.nodes()))\<close>.\<close>

definition order :: "graph \<Rightarrow> nat" where
  "order G = length G"

text \<open>\<^verbatim>\<open>list(G.neighbors(node))\<close>: the keys of the node's adjacency dictionary.\<close>

definition neighbors :: "graph \<Rightarrow> node \<Rightarrow> node list" where
  "neighbors G n = (case map_of G n of None \<Rightarrow> [] | Some d \<Rightarrow> map fst d)"

text \<open>\<^verbatim>\<open>G.edges[u, v]\<close>: the attribute dictionary stored at \<^verbatim>\<open>G._adj[u][v]\<close>.\<close>

definition edge_data :: "graph \<Rightarrow> node \<Rightarrow> node \<Rightarrow> edge_attr option" where
  "edge_data G u v = (case map_of G u of None \<Rightarrow> None | Some d \<Rightarrow> map_of d v)"

text \<open>
  \<^verbatim>\<open>G.add_edge(u, v, weight=.., conductivity=..)\<close>: a missing endpoint is added as a
  new node (at the end of the node dictionary); then \<^verbatim>\<open>_adj[u][v]\<close> and
  \<^verbatim>\<open>_adj[v][u]\<close> are set. An existing key keeps its position in the dictionary, a
  new key goes to the end, which is what \<^const>\<open>AList.update\<close> does.
\<close>

definition add_node :: "graph \<Rightarrow> node \<Rightarrow> graph" where
  "add_node G u = (if u \<in> fst ` set G then G else G @ [(u, [])])"

definition set_adj :: "graph \<Rightarrow> node \<Rightarrow> node \<Rightarrow> edge_attr \<Rightarrow> graph" where
  "set_adj G u v a = AList.map_entry u (AList.update v a) G"

definition add_edge :: "graph \<Rightarrow> node \<Rightarrow> node \<Rightarrow> edge_attr \<Rightarrow> graph" where
  "add_edge G u v a = set_adj (set_adj (add_node (add_node G u) v) u v a) v u a"

text \<open>
  \<^verbatim>\<open>G.remove_node(n)\<close>: raises \<^verbatim>\<open>NetworkXError\<close> when \<open>n\<close> is not a node; otherwise
  \<^verbatim>\<open>for u in nbrs: del adj[u][n]\<close> and then \<^verbatim>\<open>del adj[n]\<close>. A \<^verbatim>\<open>del\<close> of a
  missing key raises \<^verbatim>\<open>KeyError\<close>.
\<close>

fun del_edges :: "node list \<Rightarrow> node \<Rightarrow> graph \<Rightarrow> py_error + graph" where
  "del_edges [] n G = Inr G"
| "del_edges (u # us) n G =
     (case map_of G u of
        None \<Rightarrow> Inl KeyError
      | Some d \<Rightarrow>
          if n \<in> fst ` set d
          then del_edges us n (AList.update u (AList.delete n d) G)
          else Inl KeyError)"

definition remove_node :: "graph \<Rightarrow> node \<Rightarrow> py_error + graph" where
  "remove_node G n =
     (case map_of G n of
        None \<Rightarrow> Inl NetworkXError
      | Some d \<Rightarrow>
          (case del_edges (map fst d) n G of
             Inl e \<Rightarrow> Inl e
           | Inr G' \<Rightarrow> Inr (AList.delete n G')))"

section \<open>\<^verbatim>\<open>removeRedundantNodes\<close>\<close>

text \<open>
  The body of \<^verbatim>\<open>for node in G.nodes()\<close>. The dictionary \<^verbatim>\<open>nodelist\<close> maps each
  marked node to itself, so it is the list of its keys in insertion order. A node with
  exactly two neighbours gets the merged edge between them; the guard
  \<^verbatim>\<open>if length == 0: length = 1\<close> comes before the division and before the edge is
  stored. Python stops a loop over a dictionary with \<^verbatim>\<open>RuntimeError\<close> once the
  dictionary has changed size, which is what \<^verbatim>\<open>add_edge\<close> does when an endpoint is
  not a node yet.
\<close>

definition merged_edge :: "edge_attr \<Rightarrow> edge_attr \<Rightarrow> edge_attr" where
  "merged_edge e1 e2 =
     (let w1 = weight e1;
          w2 = weight e2;
          length0 = w1 + w2;
          c1 = conductivity e1;
          c2 = conductivity e2;
          length1 = (if length0 = 0 then 1 else length0);
          radius = (c1 * w1 + c2 * w2) / length1
      in \<lparr>weight = length1, conductivity = radius\<rparr>)"

definition collapse_node :: "node \<Rightarrow> graph \<times> node list \<Rightarrow> py_error + graph \<times> node list" where
  "collapse_node nd s =
     (case s of (G, nodelist) \<Rightarrow>
        (case map_of G nd of
           None \<Rightarrow> Inl KeyError
         | Some d \<Rightarrow>
             (case d of
                [(n1, e1), (n2, e2)] \<Rightarrow>
                  (let G' = add_edge G n1 n2 (merged_edge e1 e2);
                       nodelist' =
                         (if n1 \<notin> set nodelist \<and> n2 \<notin> set nodelist
                          then (if nd \<in> set nodelist then nodelist else nodelist @ [nd])
                          else nodelist)
                   in if length G' \<noteq> length G then Inl RuntimeError
                      else Inr (G', nodelist'))
              | _ \<Rightarrow> Inr (G, nodelist))))"

fun scan :: "node list \<Rightarrow> graph \<times> node list \<Rightarrow> py_error + graph \<times> node list" where
  "scan [] s = Inr s"
| "scan (nd # nds) s =
     (case collapse_node nd s of
        Inl e \<Rightarrow> Inl e
      | Inr s' \<Rightarrow> scan nds s')"

text \<open>\<^verbatim>\<open>for node in nodelist.keys(): G.remove_node(node)\<close>.\<close>

fun remove_nodes :: "node list \<Rightarrow> graph \<Rightarrow> py_error + graph" where
  "remove_nodes [] G = Inr G"
| "remove_nodes (nd # nds) G =
     (case remove_node G nd of
        Inl e \<Rightarrow> Inl e
      | Inr G' \<Rightarrow> remove_nodes nds G')"

text \<open>
  One iteration of the \<^verbatim>\<open>while\<close> loop up to the removals: the scan, then either the
  branch \<^verbatim>\<open>G.remove_node(nodelist[1])\<close>, which looks the key \<open>1\<close> up in the
  dictionary, or the removal of every marked node.
\<close>

definition collapse_pass :: "graph \<Rightarrow> py_error + graph" where
  "collapse_pass G =
     (case scan (map fst G) (G, []) of
        Inl e \<Rightarrow> Inl e
      | Inr (G1, nodelist) \<Rightarrow>
          if int (length nodelist) = int (length G1) - 1
          then (if 1 \<in> set nodelist then remove_node G1 1 else Inl KeyError)
          else remove_nodes nodelist G1)"

subsection \<open>A pass never adds a node\<close>

text \<open>
  The scan leaves the number of nodes alone (a change of size ends it with an error) and
  \<^verbatim>\<open>remove_node\<close> takes one node away. The loop below terminates for that reason.
\<close>

lemma length_map_entry: "length (AList.map_entry k f xs) = length xs"
  by (induction xs) auto

lemma length_set_adj: "length (set_adj G u v a) = length G"
  by (simp add: set_adj_def length_map_entry)

lemma collapse_node_length:
  "collapse_node nd (G, nl) = Inr (G', nl') \<Longrightarrow> length G' = length G"
  by (auto simp: collapse_node_def Let_def split: option.splits list.splits if_splits prod.splits)

lemma scan_length:
  "scan nds (G, nl) = Inr (G', nl') \<Longrightarrow> length G' = length G"
proof (induction nds arbitrary: G nl)
  case Nil
  then show ?case by simp
next
  case (Cons nd nds)
  then show ?case
    by (auto split: sum.splits dest: collapse_node_length)
qed

lemma length_update_present:
  "map_of xs k = Some v \<Longrightarrow> length (AList.update k w xs) = length xs"
  by (induction xs) (auto split: if_splits)

lemma del_edges_length:
  "del_edges us n G = Inr G' \<Longrightarrow> length G' = length G"
proof (induction us arbitrary: G)
  case Nil
  then show ?case by simp
next
  case (Cons u us)
  then show ?case
    by (auto split: option.splits if_splits simp: length_update_present)
qed

lemma length_delete_less:
  "k \<in> fst ` set xs \<Longrightarrow> length (AList.delete k xs) < length xs"
proof -
  assume "k \<in> fst ` set xs"
  then obtain v where "(k, v) \<in> set xs" by auto
  then show ?thesis
    unfolding AList.delete_eq by (intro length_filter_less[of "(k, v)"]) auto
qed

lemma del_edges_keys:
  "del_edges us n G = Inr G' \<Longrightarrow> map fst G' = map fst G"
proof (induction us arbitrary: G)
  case Nil
  then show ?case by simp
next
  case (Cons u us)
  then show ?case
    by (auto split: option.splits if_splits simp: update_keys dest: map_of_SomeD
             intro: rev_image_eqI)
qed

lemma remove_node_length:
  "remove_node G n = Inr G' \<Longrightarrow> length G' < length G"
proof -
  assume a: "remove_node G n = Inr G'"
  then obtain d G1 where d: "map_of G n = Some d"
    and g1: "del_edges (map fst d) n G = Inr G1" and g': "G' = AList.delete n G1"
    by (auto simp: remove_node_def split: option.splits sum.splits)
  from d have "n \<in> fst ` set G" by (auto dest: map_of_SomeD intro: rev_image_eqI)
  then have "n \<in> fst ` set G1" using del_edges_keys[OF g1] by (metis set_map)
  then have "length G' < length G1" using g' by (simp add: length_delete_less)
  then show ?thesis using del_edges_length[OF g1] by simp
qed

lemma remove_nodes_length:
  "remove_nodes nds G = Inr G' \<Longrightarrow> length G' \<le> length G"
proof (induction nds arbitrary: G)
  case Nil
  then show ?case by simp
next
  case (Cons nd nds)
  then show ?case
    by (auto split: sum.splits dest!: remove_node_length) fastforce
qed

lemma remove_nodes_length_eq:
  "remove_nodes nds G = Inr G' \<Longrightarrow> length G' = length G \<Longrightarrow> nds = []"
proof (cases nds)
  case Nil
  then show ?thesis by simp
next
  case (Cons nd nds')
  assume a: "remove_nodes nds G = Inr G'" and l: "length G' = length G"
  from a Cons obtain G1 where "remove_node G nd = Inr G1" "remove_nodes nds' G1 = Inr G'"
    by (auto split: sum.splits)
  then have "length G' < length G"
    using remove_node_length remove_nodes_length by fastforce
  with l show ?thesis by simp
qed

lemma collapse_pass_length:
  "collapse_pass G = Inr G' \<Longrightarrow> length G' \<le> length G"
  by (auto simp: collapse_pass_def split: sum.splits prod.splits if_splits
           dest!: scan_length remove_node_length remove_nodes_length)

subsection \<open>The loop\<close>

text \<open>
  The \<^verbatim>\<open>while(True)\<close> loop with its local variables \<^verbatim>\<open>order\<close>, \<^verbatim>\<open>new_order\<close>
  and \<^verbatim>\<open>i\<close>. The three tests at the top are the source's, in its order; after a pass,
  \<^verbatim>\<open>order = new_order; new_order = G.order(); i += 1\<close> and the loop stops when the two
  are equal. The result carries the final value of \<^verbatim>\<open>i\<close>, the number of passes made,
  next to the graph; \<^verbatim>\<open>removeRedundantNodes\<close> returns the graph alone.
\<close>

function rrn_loop :: "int \<Rightarrow> graph \<Rightarrow> nat \<Rightarrow> nat \<Rightarrow> nat \<Rightarrow> py_error + graph \<times> nat" where
  "rrn_loop mode G ord new_order i =
     (if mode = 1 \<and> i > 2 then Inr (G, i)
      else if mode = 0 \<and> new_order = ord then Inr (G, i)
      else if mode = 2 then Inr (G, i)
      else (case collapse_pass G of
              Inl e \<Rightarrow> Inl e
            | Inr G' \<Rightarrow>
                if new_order = order G' then Inr (G', i + 1)
                else rrn_loop mode G' new_order (order G') (i + 1)))"
  by pat_completeness auto
termination
proof (relation "measures [\<lambda>(mode, G, ord, new_order, i). length G,
                           \<lambda>(mode, G, ord, new_order, i). if new_order = length G then 0 else 1]")
  show "wf (measures [\<lambda>(mode, G, ord, new_order, i). length G,
                           \<lambda>(mode, G, ord, new_order, i). if new_order = length G then 0 else 1])"
    by simp
next
  fix mode :: int and G :: graph and ord new_order i :: nat and G' :: graph
  assume "collapse_pass G = Inr G'" and "new_order \<noteq> order G'"
  then show "((mode, G', new_order, order G', i + 1), mode, G, ord, new_order, i)
       \<in> measures [\<lambda>(mode, G, ord, new_order, i). length G,
                           \<lambda>(mode, G, ord, new_order, i). if new_order = length G then 0 else 1]"
    using collapse_pass_length[of G G'] by (auto simp: order_def)
qed

declare rrn_loop.simps [simp del]

definition removeRedundantNodes :: "graph \<Rightarrow> int \<Rightarrow> py_error + graph" where
  "removeRedundantNodes G mode =
     (case rrn_loop mode G (order G) 0 0 of
        Inl e \<Rightarrow> Inl e
      | Inr (G', i) \<Rightarrow> Inr G')"


section \<open>\<^verbatim>\<open>drawAndSave\<close>: the largest connected component\<close>

text \<open>
  \<^verbatim>\<open>drawAndSave\<close> starts with
  \<^verbatim>\<open>Gcc = sorted(nx.connected_component_subgraphs(G), key=len, reverse=True)\<close> and
  \<^verbatim>\<open>G = Gcc[0]\<close>; everything after that draws and writes this \<^verbatim>\<open>G\<close>. The
  component generator of networkx walks the nodes in their order and, from every node
  not seen yet, collects a component by breadth-first search:
  \<^verbatim>\<open>for v in thislevel: if v not in seen: yield v; seen.add(v); nextlevel.update(G_adj[v])\<close>,
  repeated \<^verbatim>\<open>while nextlevel\<close>.
\<close>

fun bfs_level :: "graph \<Rightarrow> node list \<Rightarrow> node list \<times> node list \<Rightarrow> node list \<times> node list" where
  "bfs_level G [] s = s"
| "bfs_level G (v # vs) s =
     (case s of (seen, nextlevel) \<Rightarrow>
        if v \<in> set seen then bfs_level G vs (seen, nextlevel)
        else bfs_level G vs (seen @ [v], List.union nextlevel (neighbors G v)))"

text \<open>
  The search ends because every round either sees a new node, of the finitely many
  that the graph mentions, or leaves the next level empty.
\<close>

definition mentioned :: "graph \<Rightarrow> node set" where
  "mentioned G = set (concat (map (\<lambda>(u, d). map fst d) G))"

lemma neighbors_mentioned: "set (neighbors G v) \<subseteq> mentioned G"
proof (cases "map_of G v")
  case None
  then show ?thesis by (simp add: neighbors_def)
next
  case (Some d)
  then have "(v, d) \<in> set G" by (rule map_of_SomeD)
  then have "set (map fst d) \<subseteq> mentioned G"
    unfolding mentioned_def by force
  with Some show ?thesis by (simp add: neighbors_def)
qed

lemma bfs_level_props:
  "bfs_level G vs (seen, nl) = (seen', nl') \<Longrightarrow>
     set seen' = set seen \<union> set vs
     \<and> set nl' \<subseteq> set nl \<union> mentioned G
     \<and> (set vs \<subseteq> set seen \<longrightarrow> nl' = nl)"
proof (induction vs arbitrary: seen nl)
  case Nil
  then show ?case by simp
next
  case (Cons v vs)
  show ?case
  proof (cases "v \<in> set seen")
    case True
    with Cons.prems have "bfs_level G vs (seen, nl) = (seen', nl')" by simp
    from Cons.IH[OF this] True show ?thesis by auto
  next
    case False
    with Cons.prems have
      "bfs_level G vs (seen @ [v], List.union nl (neighbors G v)) = (seen', nl')" by simp
    from Cons.IH[OF this] False neighbors_mentioned[of G v] show ?thesis by auto
  qed
qed

function plain_bfs :: "graph \<Rightarrow> node list \<Rightarrow> node list \<Rightarrow> node list" where
  "plain_bfs G seen nextlevel =
     (if nextlevel = [] then seen
      else (case bfs_level G nextlevel (seen, []) of
              (seen', nextlevel') \<Rightarrow> plain_bfs G seen' nextlevel'))"
  by pat_completeness auto
termination
proof (relation "measures [\<lambda>(G, seen, nextlevel). card ((mentioned G \<union> set nextlevel) - set seen),
                           \<lambda>(G, seen, nextlevel). length nextlevel]")
  show "wf (measures [\<lambda>(G, seen, nextlevel). card ((mentioned G \<union> set nextlevel) - set seen),
                           \<lambda>(G, seen, nextlevel). length nextlevel])"
    by simp
next
  fix G :: graph and seen nextlevel seen' nextlevel' :: "node list"
  assume ne: "nextlevel \<noteq> []"
    and xx: "(seen', nextlevel') = bfs_level G nextlevel (seen, [])"
  then have b: "bfs_level G nextlevel (seen, []) = (seen', nextlevel')" by simp
  note p = bfs_level_props[OF b]
  have "finite (mentioned G)"
    unfolding mentioned_def by (rule finite_set)
  then have fin: "finite ((mentioned G \<union> set nextlevel) - set seen)"
    by simp
  show "((G, seen', nextlevel'), G, seen, nextlevel)
       \<in> measures [\<lambda>(G, seen, nextlevel). card ((mentioned G \<union> set nextlevel) - set seen),
                           \<lambda>(G, seen, nextlevel). length nextlevel]"
  proof (cases "set nextlevel \<subseteq> set seen")
    case True
    with p have "nextlevel' = []" "set seen' = set seen" by auto
    moreover have "(mentioned G \<union> set nextlevel) - set seen = mentioned G - set seen"
      using True by auto
    ultimately show ?thesis using ne by simp
  next
    case False
    then obtain v where v: "v \<in> set nextlevel" "v \<notin> set seen" by auto
    have "(mentioned G \<union> set nextlevel') - set seen' \<subset> (mentioned G \<union> set nextlevel) - set seen"
      using p v by auto
    then have "card ((mentioned G \<union> set nextlevel') - set seen')
        < card ((mentioned G \<union> set nextlevel) - set seen)"
      using fin by (rule psubset_card_mono[rotated])
    then show ?thesis by simp
  qed
qed

declare plain_bfs.simps [simp del]

fun connected_components_loop :: "graph \<Rightarrow> node list \<Rightarrow> node list \<Rightarrow> node list list" where
  "connected_components_loop G [] seen = []"
| "connected_components_loop G (v # vs) seen =
     (if v \<in> set seen then connected_components_loop G vs seen
      else (let c = plain_bfs G [] [v]
            in c # connected_components_loop G vs (seen @ c)))"

definition connected_components :: "graph \<Rightarrow> node list list" where
  "connected_components G = connected_components_loop G (map fst G) []"

text \<open>
  \<^verbatim>\<open>G.subgraph(c).copy()\<close>: the nodes of \<open>c\<close> with the edges between them;
  \<^verbatim>\<open>len\<close> of a graph is its number of nodes.
\<close>

definition subgraph :: "graph \<Rightarrow> node list \<Rightarrow> graph" where
  "subgraph G c =
     map (\<lambda>(n, d). (n, filter (\<lambda>(m, a). m \<in> set c) d)) (filter (\<lambda>(n, d). n \<in> set c) G)"

definition connected_component_subgraphs :: "graph \<Rightarrow> graph list" where
  "connected_component_subgraphs G = map (subgraph G) (connected_components G)"

text \<open>
  \<^verbatim>\<open>sorted(xs, key=.., reverse=True)\<close>. Python's sort is stable, and with
  \<^verbatim>\<open>reverse=True\<close> it reverses the list, sorts it and reverses the result, so that
  elements with equal keys keep their order. \<^const>\<open>sort_key\<close> is a stable insertion
  sort.
\<close>

definition py_sorted_reverse :: "('a \<Rightarrow> nat) \<Rightarrow> 'a list \<Rightarrow> 'a list" where
  "py_sorted_reverse key xs = rev (sort_key key (rev xs))"

text \<open>
  The graph that \<^verbatim>\<open>drawAndSave\<close> draws and writes; \<^verbatim>\<open>Gcc[0]\<close> on an empty list
  raises \<^verbatim>\<open>IndexError\<close>.
\<close>

definition drawAndSave :: "graph \<Rightarrow> py_error + graph" where
  "drawAndSave G =
     (let Gcc = py_sorted_reverse length (connected_component_subgraphs G)
      in case Gcc of [] \<Rightarrow> Inl IndexError | G0 # rest \<Rightarrow> Inr G0)"

section \<open>Contours\<close>

text \<open>
  A flattened contour is a list of points \<^verbatim>\<open>[x, y]\<close> of floats. The contours that
  \<^verbatim>\<open>cv2.findContours\<close> returns are arrays of shape \<open>(n, 1, 2)\<close> of integers, so a
  raw point \<^verbatim>\<open>point\<close> holds its coordinates at \<^verbatim>\<open>point[0][0]\<close> and
  \<^verbatim>\<open>point[0][1]\<close>.
\<close>

type_synonym point = "real \<times> real"

type_synonym contour = "point list"

type_synonym raw_contour = "(int \<times> int) list"

definition flattenContours :: "raw_contour list \<Rightarrow> contour list" where
  "flattenContours raw_contours =
     map (\<lambda>contour. map (\<lambda>point. (real_of_int (fst point), real_of_int (snd point))) contour)
       raw_contours"

text \<open>
  \<^verbatim>\<open>thresholdContours\<close>: the loop over \<^verbatim>\<open>zip(contours, range(len(contours)))\<close> that
  appends every contour with \<^verbatim>\<open>len(c) > threshold\<close>.
\<close>

fun thresholdContours_loop :: "('a list \<times> nat) list \<Rightarrow> int \<Rightarrow> 'a list list \<Rightarrow> 'a list list" where
  "thresholdContours_loop [] threshold thresholded_contours = thresholded_contours"
| "thresholdContours_loop ((c, i) # rest) threshold thresholded_contours =
     thresholdContours_loop rest threshold
       (if int (length c) > threshold then thresholded_contours @ [c]
        else thresholded_contours)"

definition thresholdContours :: "'a list list \<Rightarrow> int \<Rightarrow> 'a list list" where
  "thresholdContours contours threshold =
     thresholdContours_loop (zip contours [0..<length contours]) threshold []"

text \<open>
  \<^verbatim>\<open>createContours\<close>, from the contours that \<^verbatim>\<open>getContours\<close> extracted. The loop
  assigns \<^verbatim>\<open>longuest_index\<close> only inside its \<^verbatim>\<open>if\<close>; the variable has no value
  before the loop, so it is an option here, and the \<^verbatim>\<open>return\<close> of an unassigned local
  raises \<^verbatim>\<open>UnboundLocalError\<close>.
\<close>

fun longuest_loop :: "nat list \<Rightarrow> contour list \<Rightarrow> nat \<times> nat option \<Rightarrow> nat \<times> nat option" where
  "longuest_loop [] flattened_contours s = s"
| "longuest_loop (c # cs) flattened_contours s =
     (case s of (longuest_length, longuest_index) \<Rightarrow>
        longuest_loop cs flattened_contours
          (if length (flattened_contours ! c) > longuest_length
           then (length (flattened_contours ! c), Some c)
           else (longuest_length, longuest_index)))"

definition createContours :: "raw_contour list \<Rightarrow> py_error + nat \<times> contour list" where
  "createContours raw_contours =
     (let flattened_contours = thresholdContours (flattenContours raw_contours) 3;
          s = longuest_loop [0..<length flattened_contours] flattened_contours (0, None)
      in case snd s of
           None \<Rightarrow> Inl UnboundLocalError
         | Some longuest_index \<Rightarrow> Inr (longuest_index, flattened_contours))"

section \<open>The slice loop of \<^verbatim>\<open>vectorize\<close>\<close>

text \<open>
  \<^verbatim>\<open>cleanAndSaveGraph\<close>: three \<^verbatim>\<open>if\<close> statements on \<^verbatim>\<open>redundancy\<close>, in the
  source's order, each saving through \<^verbatim>\<open>drawAndSave\<close>; the graph is reassigned by
  \<^verbatim>\<open>removeRedundantNodes\<close>. The result is the list of graphs written.
\<close>

definition cleanAndSaveGraph :: "graph \<Rightarrow> int \<Rightarrow> py_error + graph list" where
  "cleanAndSaveGraph G redundancy =
     (case (if redundancy = 2
            then (case drawAndSave G of Inl e \<Rightarrow> Inl e | Inr g \<Rightarrow> Inr [g])
            else Inr []) of
        Inl e \<Rightarrow> Inl e
      | Inr saved2 \<Rightarrow>
          (case (if redundancy = 1
                 then (case removeRedundantNodes G 1 of
                         Inl e \<Rightarrow> Inl e
                       | Inr G1 \<Rightarrow>
                           (case drawAndSave G1 of
                              Inl e \<Rightarrow> Inl e
                            | Inr g \<Rightarrow> Inr (G1, saved2 @ [g])))
                 else Inr (G, saved2)) of
             Inl e \<Rightarrow> Inl e
           | Inr (G', saved1) \<Rightarrow>
               (if redundancy = 0
                then (case removeRedundantNodes G' 0 of
                        Inl e \<Rightarrow> Inl e
                      | Inr G0 \<Rightarrow>
                          (case drawAndSave G0 of
                             Inl e \<Rightarrow> Inl e
                           | Inr g \<Rightarrow> Inr (saved1 @ [g])))
                else Inr saved1)))"

text \<open>
  A slice is a two-dimensional array of unsigned bytes. \<^verbatim>\<open>np.sum\<close> adds them in an
  unsigned 64-bit accumulator.
\<close>

type_synonym slice = "8 word list list"

definition np_sum :: "slice \<Rightarrow> nat" where
  "np_sum sli = sum_list (map (\<lambda>row. sum_list (map unat row)) sli) mod 2 ^ 64"

text \<open>
  The stages between the contours and the graph call OpenCV, meshpy and the compiled
  helper library, so they are parameters here: each takes the previous stage's result and
  returns its own or raises. \<open>smooth\<close> is the optional opening and closing of the
  slice, \<open>createGraph\<close> stands for \<^verbatim>\<open>createTriangleAdjacencyMatrix\<close> followed by
  \<^verbatim>\<open>createGraph\<close>.
\<close>

record ('m, 't, 'c) externals =
  smooth :: "slice \<Rightarrow> slice"
  getContours :: "slice \<Rightarrow> raw_contour list"
  createMesh :: "nat \<times> contour list \<Rightarrow> py_error + 'm"
  createTriangulation :: "'m \<Rightarrow> py_error + 't"
  triangleClassification :: "'t \<Rightarrow> py_error + 'c"
  graphPruning :: "'c \<Rightarrow> py_error + 'c"
  createGraph :: "'c \<Rightarrow> py_error + graph"

datatype stage =
  ContourExtraction | Meshing | Triangulation | Classification | Pruning | GraphBuilding
  | CleanAndSave

datatype event = Invoke stage | WriteGpickle graph

text \<open>
  What one slice does is the list of stages it invokes and graphs it writes, and the
  exception that ended it, if any. A stage runs only when every stage before it
  returned.
\<close>

definition run_stage ::
  "stage \<Rightarrow> ('a \<Rightarrow> py_error + 'b) \<Rightarrow> event list \<times> (py_error + 'a) \<Rightarrow> event list \<times> (py_error + 'b)" where
  "run_stage s f r =
     (case r of
        (evs, Inl e) \<Rightarrow> (evs, Inl e)
      | (evs, Inr x) \<Rightarrow> (evs @ [Invoke s], f x))"

text \<open>
  The body of \<^verbatim>\<open>for i, sli in enumerate(slices)\<close>. The test
  \<^verbatim>\<open>if np.sum(sli) <= 0\<close> comes first: it writes \<^verbatim>\<open>nx.Graph()\<close> and
  \<^verbatim>\<open>continue\<close>s.
\<close>

definition process_slice ::
  "('m, 't, 'c) externals \<Rightarrow> int \<Rightarrow> slice \<Rightarrow> event list \<times> py_error option" where
  "process_slice ext redundancy sli =
     (if np_sum sli \<le> 0 then ([WriteGpickle []], None)
      else
        (let r0 = ([], Inr (smooth ext sli));
             r1 = run_stage ContourExtraction (\<lambda>s. createContours (getContours ext s)) r0;
             r2 = run_stage Meshing (createMesh ext) r1;
             r3 = run_stage Triangulation (createTriangulation ext) r2;
             r4 = run_stage Classification (triangleClassification ext) r3;
             r5 = run_stage Pruning (graphPruning ext) r4;
             r6 = run_stage GraphBuilding (createGraph ext) r5;
             r7 = run_stage CleanAndSave (\<lambda>G. cleanAndSaveGraph G redundancy) r6
         in case r7 of
              (evs, Inl e) \<Rightarrow> (evs, Some e)
            | (evs, Inr saved) \<Rightarrow> (evs @ map WriteGpickle saved, None)))"

text \<open>The loop over the slices; an exception ends it.\<close>

fun vectorize_slices ::
  "('m, 't, 'c) externals \<Rightarrow> int \<Rightarrow> slice list \<Rightarrow> event list \<times> py_error option" where
  "vectorize_slices ext redundancy [] = ([], None)"
| "vectorize_slices ext redundancy (sli # slices) =
     (case process_slice ext redundancy sli of
        (evs, Some e) \<Rightarrow> (evs, Some e)
      | (evs, None) \<Rightarrow>
          (case vectorize_slices ext redundancy slices of
             (evs', r) \<Rightarrow> (evs @ evs', r)))"

section \<open>Graphs as networkx keeps them\<close>

text \<open>
  What the class \<^verbatim>\<open>nx.Graph\<close> maintains and the association lists do not say: a
  dictionary has each key once, and \<open>v\<close> is in the adjacency of \<open>u\<close> exactly when
  \<open>u\<close> is in the adjacency of \<open>v\<close>, both being nodes.
\<close>

definition nx_graph :: "graph \<Rightarrow> bool" where
  "nx_graph G \<longleftrightarrow>
     distinct (map fst G)
     \<and> list_all (\<lambda>(u, d). distinct (map fst d)
           \<and> list_all (\<lambda>(v, a). u \<in> set (neighbors G v)) d) G"

text \<open>\<open>k\<close> collapse passes in a row.\<close>

fun passes :: "nat \<Rightarrow> graph \<Rightarrow> py_error + graph" where
  "passes 0 G = Inr G"
| "passes (Suc k) G =
     (case collapse_pass G of
        Inl e \<Rightarrow> Inl e
      | Inr G' \<Rightarrow> passes k G')"

section \<open>Path graphs\<close>

text \<open>
  A simple path \<open>A - B - C\<close>: three distinct nodes in any order of the node dictionary,
  \<open>A\<close> and \<open>C\<close> adjacent to \<open>B\<close> only, \<open>B\<close> adjacent to both, in either order of
  its adjacency dictionary. The two directions of an edge share one attribute dictionary.
\<close>

definition is_path3 :: "graph \<Rightarrow> node \<Rightarrow> node \<Rightarrow> node \<Rightarrow> edge_attr \<Rightarrow> edge_attr \<Rightarrow> bool" where
  "is_path3 G A B C eAB eBC \<longleftrightarrow>
     A \<noteq> B \<and> A \<noteq> C \<and> B \<noteq> C
     \<and> distinct (map fst G) \<and> set (map fst G) = {A, B, C}
     \<and> map_of G A = Some [(B, eAB)]
     \<and> map_of G C = Some [(B, eBC)]
     \<and> (map_of G B = Some [(A, eAB), (C, eBC)] \<or> map_of G B = Some [(C, eBC), (A, eAB)])"

text \<open>The path \<open>0 - 1 - 2\<close> with the nodes in that order.\<close>

definition path3 :: "edge_attr \<Rightarrow> edge_attr \<Rightarrow> graph" where
  "path3 e1 e2 = [(0, [(1, e1)]), (1, [(0, e1), (2, e2)]), (2, [(1, e2)])]"

text \<open>The path \<open>0 - 1 - 2 - 3 - 4\<close> with unit weights and conductivities.\<close>

definition path5 :: graph where
  "path5 = [(0, [(1, \<lparr>weight = 1, conductivity = 1\<rparr>)]),
            (1, [(0, \<lparr>weight = 1, conductivity = 1\<rparr>), (2, \<lparr>weight = 1, conductivity = 1\<rparr>)]),
            (2, [(1, \<lparr>weight = 1, conductivity = 1\<rparr>), (3, \<lparr>weight = 1, conductivity = 1\<rparr>)]),
            (3, [(2, \<lparr>weight = 1, conductivity = 1\<rparr>), (4, \<lparr>weight = 1, conductivity = 1\<rparr>)]),
            (4, [(3, \<lparr>weight = 1, conductivity = 1\<rparr>)])]"

text \<open>Two nodes joined by one edge.\<close>

definition edge2 :: graph where
  "edge2 = [(0, [(1, \<lparr>weight = 1, conductivity = 1\<rparr>)]),
            (1, [(0, \<lparr>weight = 1, conductivity = 1\<rparr>)])]"

text \<open>External stages for running the slice loop on examples: every one of them raises.\<close>

definition raising_stages :: "(unit, unit, unit) externals" where
  "raising_stages =
     \<lparr>smooth = (\<lambda>sli. sli),
      getContours = (\<lambda>sli. []),
      createMesh = (\<lambda>x. Inl RuntimeError),
      createTriangulation = (\<lambda>x. Inl RuntimeError),
      triangleClassification = (\<lambda>x. Inl RuntimeError),
      graphPruning = (\<lambda>x. Inl RuntimeError),
      createGraph = (\<lambda>x. Inl RuntimeError)\<rparr>"

section \<open>Lemmas about the graph operations\<close>

lemma map_of_set_adj:
  "map_of (set_adj G u v a) =
     (map_of G)(u := (case map_of G u of None \<Rightarrow> None | Some d \<Rightarrow> Some (AList.update v a d)))"
  by (simp add: set_adj_def map_of_map_entry)

lemma add_node_length_eq:
  "length (add_node (add_node G u) v) = length G \<longleftrightarrow> u \<in> fst ` set G \<and> v \<in> fst ` set G"
  by (auto simp: add_node_def)

lemma add_edge_length_eq:
  "length (add_edge G u v a) = length G \<longleftrightarrow> u \<in> fst ` set G \<and> v \<in> fst ` set G"
  by (simp add: add_edge_def length_set_adj add_node_length_eq)

lemma add_edge_present:
  "u \<in> fst ` set G \<Longrightarrow> v \<in> fst ` set G \<Longrightarrow>
     add_edge G u v a = set_adj (set_adj G u v a) v u a"
  by (simp add: add_edge_def add_node_def)

lemma edge_data_add_edge:
  assumes "u \<in> fst ` set G" "v \<in> fst ` set G"
  shows "edge_data (add_edge G u v a) u v = Some a"
    and "edge_data (add_edge G u v a) v u = Some a"
proof -
  from assms obtain du dv where "map_of G u = Some du" "map_of G v = Some dv"
    by (metis domD dom_map_of_conv_image_fst)
  then show "edge_data (add_edge G u v a) u v = Some a"
    and "edge_data (add_edge G u v a) v u = Some a"
    using assms by (auto simp: add_edge_present edge_data_def map_of_set_adj update_conv')
qed

lemma merged_edge_commute: "merged_edge e2 e1 = merged_edge e1 e2"
  by (simp add: merged_edge_def Let_def add.commute)

lemmas pass_unfold = collapse_pass_def collapse_node_def add_edge_def add_node_def set_adj_def
  remove_node_def edge_data_def Let_def

text \<open>The run of mode 0 on the path of five nodes: three passes, two nodes left.\<close>

lemma path5_pass:
  "collapse_pass path5
     = Inr [(0, [(2, \<lparr>weight = 2, conductivity = 1\<rparr>)]),
            (2, [(0, \<lparr>weight = 2, conductivity = 1\<rparr>), (4, \<lparr>weight = 2, conductivity = 1\<rparr>)]),
            (4, [(2, \<lparr>weight = 2, conductivity = 1\<rparr>)])]"
  by (simp add: path5_def pass_unfold merged_edge_def)

lemma path5_loop0:
  "rrn_loop 0 path5 (order path5) 0 0
     = Inr ([(0, [(4, \<lparr>weight = 4, conductivity = 1\<rparr>)]),
             (4, [(0, \<lparr>weight = 4, conductivity = 1\<rparr>)])], 3)"
  by (simp add: path5_def rrn_loop.simps pass_unfold merged_edge_def order_def)

lemma path5_all:
  "removeRedundantNodes path5 0
     = Inr [(0, [(4, \<lparr>weight = 4, conductivity = 1\<rparr>)]),
            (4, [(0, \<lparr>weight = 4, conductivity = 1\<rparr>)])]"
  unfolding removeRedundantNodes_def path5_loop0 by simp

section \<open>The merge rule\<close>

text \<open>
  C1, as the code has it. When \<^verbatim>\<open>removeRedundantNodes\<close> collapses a node \<open>v\<close> whose
  two neighbours are \<open>n1\<close> and \<open>n2\<close>, the conductivity it stores on the edge between
  \<open>n1\<close> and \<open>n2\<close> is \<open>(c1 * w1 + c2 * w2) / d\<close>, where \<open>d\<close> is \<open>w1 + w2\<close> when that
  sum is not zero and \<open>1\<close> when it is zero. The divisor is not \<open>max (w1 + w2) 1\<close>: a
  sum between 0 and 1 divides as it is.
\<close>

theorem collapse_conductivity:
  assumes "map_of G v = Some [(n1, e1), (n2, e2)]"
    and "collapse_node v (G, nodelist) = Inr (G', nodelist')"
  shows "map_option conductivity (edge_data G' n1 n2) =
           Some ((conductivity e1 * weight e1 + conductivity e2 * weight e2) /
                 (if weight e1 + weight e2 = 0 then 1 else weight e1 + weight e2))"
proof -
  from assms have l: "length (add_edge G n1 n2 (merged_edge e1 e2)) = length G"
    and g: "G' = add_edge G n1 n2 (merged_edge e1 e2)"
    by (auto simp: collapse_node_def Let_def split: if_splits)
  from l have "n1 \<in> fst ` set G" "n2 \<in> fst ` set G"
    by (simp_all add: add_edge_length_eq)
  then have "edge_data G' n1 n2 = Some (merged_edge e1 e2)"
    using g by (simp add: edge_data_add_edge)
  then show ?thesis by (simp add: merged_edge_def Let_def)
qed

theorem collapse_conductivity_witness:
  "map_of (path3 \<lparr>weight = 3, conductivity = 2\<rparr> \<lparr>weight = 1, conductivity = 4\<rparr>) 1
     = Some [(0, \<lparr>weight = 3, conductivity = 2\<rparr>), (2, \<lparr>weight = 1, conductivity = 4\<rparr>)]
   \<and> collapse_node 1 (path3 \<lparr>weight = 3, conductivity = 2\<rparr> \<lparr>weight = 1, conductivity = 4\<rparr>, [])
     = Inr ([(0, [(1, \<lparr>weight = 3, conductivity = 2\<rparr>), (2, \<lparr>weight = 4, conductivity = 5 / 2\<rparr>)]),
             (1, [(0, \<lparr>weight = 3, conductivity = 2\<rparr>), (2, \<lparr>weight = 1, conductivity = 4\<rparr>)]),
             (2, [(1, \<lparr>weight = 1, conductivity = 4\<rparr>), (0, \<lparr>weight = 4, conductivity = 5 / 2\<rparr>)])],
            [1])
   \<and> map_option conductivity (edge_data
         [(0, [(1, \<lparr>weight = 3, conductivity = 2\<rparr>), (2, \<lparr>weight = 4, conductivity = 5 / 2\<rparr>)]),
          (1, [(0, \<lparr>weight = 3, conductivity = 2\<rparr>), (2, \<lparr>weight = 1, conductivity = 4\<rparr>)]),
          (2, [(1, \<lparr>weight = 1, conductivity = 4\<rparr>), (0, \<lparr>weight = 4, conductivity = 5 / 2\<rparr>)])]
         0 2) = Some (5 / 2)"
  using collapse_conductivity
    [of "path3 \<lparr>weight = 3, conductivity = 2\<rparr> \<lparr>weight = 1, conductivity = 4\<rparr>" 1
        0 "\<lparr>weight = 3, conductivity = 2\<rparr>" 2 "\<lparr>weight = 1, conductivity = 4\<rparr>" "[]"]
  by (simp add: pass_unfold path3_def merged_edge_def)

text \<open>
  With both weights \<open>1/4\<close> and both conductivities \<open>2\<close> the stored conductivity is
  \<open>2\<close>, where division by \<open>max (w1 + w2) 1\<close> would give \<open>1/2\<close>.
\<close>

theorem collapse_conductivity_max_counterexample:
  "collapse_node 1
       (path3 \<lparr>weight = 1 / 4, conductivity = 2\<rparr> \<lparr>weight = 1 / 4, conductivity = 2\<rparr>, [])
     = Inr ([(0, [(1, \<lparr>weight = 1 / 4, conductivity = 2\<rparr>), (2, \<lparr>weight = 1 / 2, conductivity = 2\<rparr>)]),
             (1, [(0, \<lparr>weight = 1 / 4, conductivity = 2\<rparr>), (2, \<lparr>weight = 1 / 4, conductivity = 2\<rparr>)]),
             (2, [(1, \<lparr>weight = 1 / 4, conductivity = 2\<rparr>), (0, \<lparr>weight = 1 / 2, conductivity = 2\<rparr>)])],
            [1])
   \<and> map_option conductivity (edge_data
         [(0, [(1, \<lparr>weight = 1 / 4, conductivity = 2\<rparr>), (2, \<lparr>weight = 1 / 2, conductivity = 2\<rparr>)]),
          (1, [(0, \<lparr>weight = 1 / 4, conductivity = 2\<rparr>), (2, \<lparr>weight = 1 / 4, conductivity = 2\<rparr>)]),
          (2, [(1, \<lparr>weight = 1 / 4, conductivity = 2\<rparr>), (0, \<lparr>weight = 1 / 2, conductivity = 2\<rparr>)])]
         0 2)
       \<noteq> Some ((2 * (1 / 4) + 2 * (1 / 4)) / max (1 / 4 + 1 / 4) 1)"
  by (simp add: pass_unfold path3_def merged_edge_def)

section \<open>Collapsing the middle of a path\<close>

lemma three_perm:
  assumes "distinct xs" "set xs = {a, b, c}" "a \<noteq> b" "a \<noteq> c" "b \<noteq> c"
  shows "xs = [a, b, c] \<or> xs = [a, c, b] \<or> xs = [b, a, c] \<or> xs = [b, c, a]
       \<or> xs = [c, a, b] \<or> xs = [c, b, a]"
proof -
  have "length xs = 3"
    using assms distinct_card[of xs] by simp
  then obtain x y z where xs: "xs = [x, y, z]"
    by (auto simp: numeral_3_eq_3 length_Suc_conv)
  have m: "a = x \<or> a = y \<or> a = z" "b = x \<or> b = y \<or> b = z" "c = x \<or> c = y \<or> c = z"
    using assms(2) unfolding xs by auto
  have d: "x \<noteq> y" "x \<noteq> z" "y \<noteq> z"
    using assms(1) unfolding xs by auto
  show ?thesis
    unfolding xs using m d assms(3-5) by (elim disjE) simp_all
qed

lemma is_path3_cases:
  assumes "is_path3 G A B C e1 e2"
  obtains dB where "dB = [(A, e1), (C, e2)] \<or> dB = [(C, e2), (A, e1)]"
    and "G = [(A, [(B, e1)]), (B, dB), (C, [(B, e2)])]
       \<or> G = [(A, [(B, e1)]), (C, [(B, e2)]), (B, dB)]
       \<or> G = [(B, dB), (A, [(B, e1)]), (C, [(B, e2)])]
       \<or> G = [(B, dB), (C, [(B, e2)]), (A, [(B, e1)])]
       \<or> G = [(C, [(B, e2)]), (A, [(B, e1)]), (B, dB)]
       \<or> G = [(C, [(B, e2)]), (B, dB), (A, [(B, e1)])]"
proof -
  from assms obtain dB where dB: "dB = [(A, e1), (C, e2)] \<or> dB = [(C, e2), (A, e1)]"
    and mB: "map_of G B = Some dB"
    unfolding is_path3_def by blast
  from assms have ne: "A \<noteq> B" "A \<noteq> C" "B \<noteq> C"
    and dk: "distinct (map fst G)" and ks: "set (map fst G) = {A, B, C}"
    and mA: "map_of G A = Some [(B, e1)]" and mC: "map_of G C = Some [(B, e2)]"
    unfolding is_path3_def by blast+
  let ?a = "(A, [(B, e1)])" and ?b = "(B, dB)" and ?c = "(C, [(B, e2)])"
  have dG: "distinct G" using dk by (simp add: distinct_map)
  have len: "length G = 3" using dk ks ne distinct_card[of "map fst G"] by simp
  have sub: "{?a, ?b, ?c} \<subseteq> set G"
    using mA mB mC by (auto dest: map_of_SomeD)
  have "card {?a, ?b, ?c} = 3" using ne by simp
  moreover have "card (set G) = 3" using dG len by (simp add: distinct_card)
  ultimately have "set G = {?a, ?b, ?c}"
    using sub by (metis List.finite_set card_subset_eq)
  then have "G = [?a, ?b, ?c] \<or> G = [?a, ?c, ?b] \<or> G = [?b, ?a, ?c] \<or> G = [?b, ?c, ?a]
       \<or> G = [?c, ?a, ?b] \<or> G = [?c, ?b, ?a]"
    using dG ne by (intro three_perm) auto
  then show ?thesis using dB that[of dB] by blast
qed

lemma path3_pass:
  assumes "is_path3 G A B C e1 e2"
  shows "collapse_pass G = Inr [(A, [(C, merged_edge e1 e2)]), (C, [(A, merged_edge e1 e2)])]
       \<or> collapse_pass G = Inr [(C, [(A, merged_edge e1 e2)]), (A, [(C, merged_edge e1 e2)])]"
proof -
  from assms have ne: "A \<noteq> B" "A \<noteq> C" "B \<noteq> C" "B \<noteq> A" "C \<noteq> A" "C \<noteq> B"
    by (auto simp: is_path3_def)
  from assms obtain dB where dB: "dB = [(A, e1), (C, e2)] \<or> dB = [(C, e2), (A, e1)]"
    and G: "G = [(A, [(B, e1)]), (B, dB), (C, [(B, e2)])]
       \<or> G = [(A, [(B, e1)]), (C, [(B, e2)]), (B, dB)]
       \<or> G = [(B, dB), (A, [(B, e1)]), (C, [(B, e2)])]
       \<or> G = [(B, dB), (C, [(B, e2)]), (A, [(B, e1)])]
       \<or> G = [(C, [(B, e2)]), (A, [(B, e1)]), (B, dB)]
       \<or> G = [(C, [(B, e2)]), (B, dB), (A, [(B, e1)])]"
    by (rule is_path3_cases)
  from dB G show ?thesis
    using ne by (elim disjE) (simp_all add: pass_unfold merged_edge_commute)
qed

text \<open>
  C2, as the code has it. On a simple path \<open>A - B - C\<close>, whatever the order of the
  nodes, one pass returns the graph on \<open>A\<close> and \<open>C\<close> with one edge between them. Its
  weight is \<open>w(A,B) + w(B,C)\<close> when that sum is not zero, and \<open>1\<close> when it is; its
  conductivity is \<open>(c(A,B) * w(A,B) + c(B,C) * w(B,C))\<close> divided by that weight, which
  is the length-weighted average of the two conductivities when the sum is not zero.
\<close>

theorem path_collapse:
  assumes "is_path3 G A B C eAB eBC"
  shows "\<exists>G'. collapse_pass G = Inr G' \<and> set (map fst G') = {A, C}
           \<and> edge_data G' A C =
               Some \<lparr>weight = (if weight eAB + weight eBC = 0 then 1 else weight eAB + weight eBC),
                     conductivity =
                       (conductivity eAB * weight eAB + conductivity eBC * weight eBC) /
                       (if weight eAB + weight eBC = 0 then 1 else weight eAB + weight eBC)\<rparr>
           \<and> edge_data G' C A = edge_data G' A C"
proof -
  from assms have ne: "A \<noteq> C" "C \<noteq> A" by (auto simp: is_path3_def)
  have m: "merged_edge eAB eBC =
      \<lparr>weight = (if weight eAB + weight eBC = 0 then 1 else weight eAB + weight eBC),
       conductivity = (conductivity eAB * weight eAB + conductivity eBC * weight eBC) /
                      (if weight eAB + weight eBC = 0 then 1 else weight eAB + weight eBC)\<rparr>"
    by (simp add: merged_edge_def Let_def)
  from path3_pass[OF assms] show ?thesis
  proof
    assume "collapse_pass G =
      Inr [(A, [(C, merged_edge eAB eBC)]), (C, [(A, merged_edge eAB eBC)])]"
    then show ?thesis using ne m by (auto simp: edge_data_def)
  next
    assume "collapse_pass G =
      Inr [(C, [(A, merged_edge eAB eBC)]), (A, [(C, merged_edge eAB eBC)])]"
    then show ?thesis using ne m by (auto simp: edge_data_def)
  qed
qed

theorem path_collapse_witness:
  "is_path3 (path3 \<lparr>weight = 3, conductivity = 2\<rparr> \<lparr>weight = 1, conductivity = 4\<rparr>) 0 1 2
      \<lparr>weight = 3, conductivity = 2\<rparr> \<lparr>weight = 1, conductivity = 4\<rparr>
   \<and> collapse_pass (path3 \<lparr>weight = 3, conductivity = 2\<rparr> \<lparr>weight = 1, conductivity = 4\<rparr>)
     = Inr [(0, [(2, \<lparr>weight = 4, conductivity = 5 / 2\<rparr>)]),
            (2, [(0, \<lparr>weight = 4, conductivity = 5 / 2\<rparr>)])]"
  using path_collapse
    [of "path3 \<lparr>weight = 3, conductivity = 2\<rparr> \<lparr>weight = 1, conductivity = 4\<rparr>" 0 1 2
        "\<lparr>weight = 3, conductivity = 2\<rparr>" "\<lparr>weight = 1, conductivity = 4\<rparr>"]
  by (simp add: is_path3_def path3_def pass_unfold merged_edge_def)

text \<open>
  Two edges of weight \<open>0\<close>: the path is collapsed to an edge of weight \<open>1\<close>, not
  \<open>0 + 0\<close>.
\<close>

theorem path_collapse_weight_counterexample:
  "is_path3 (path3 \<lparr>weight = 0, conductivity = 2\<rparr> \<lparr>weight = 0, conductivity = 3\<rparr>) 0 1 2
      \<lparr>weight = 0, conductivity = 2\<rparr> \<lparr>weight = 0, conductivity = 3\<rparr>
   \<and> collapse_pass (path3 \<lparr>weight = 0, conductivity = 2\<rparr> \<lparr>weight = 0, conductivity = 3\<rparr>)
     = Inr [(0, [(2, \<lparr>weight = 1, conductivity = 0\<rparr>)]),
            (2, [(0, \<lparr>weight = 1, conductivity = 0\<rparr>)])]
   \<and> map_option weight (edge_data
         [(0, [(2, \<lparr>weight = 1, conductivity = 0\<rparr>)]),
          (2, [(0, \<lparr>weight = 1, conductivity = 0\<rparr>)])] 0 2) \<noteq> Some (0 + 0)"
  by (simp add: is_path3_def path3_def pass_unfold merged_edge_def)

section \<open>Passes and the fixed point of mode 0\<close>

text \<open>
  A pass that leaves the marked list empty has met no node with exactly two
  neighbours, and has changed nothing.
\<close>

lemma collapse_node_Nil:
  assumes "collapse_node nd (G, nl) = Inr (G', [])"
  shows "G' = G \<and> nl = [] \<and> length (neighbors G nd) \<noteq> 2"
proof -
  from assms obtain d where d: "map_of G nd = Some d"
    by (auto simp: collapse_node_def split: option.splits)
  show ?thesis
  proof (cases "\<exists>n1 e1 n2 e2. d = [(n1, e1), (n2, e2)]")
    case True
    then obtain n1 e1 n2 e2 where "d = [(n1, e1), (n2, e2)]" by blast
    with assms d show ?thesis
      by (auto simp: collapse_node_def Let_def split: if_splits)
  next
    case False
    then have "length d \<noteq> 2"
      by (auto simp: numeral_2_eq_2 length_Suc_conv)
    moreover from False assms d have "G' = G \<and> nl = []"
      by (auto simp: collapse_node_def split: list.splits)
    ultimately show ?thesis using d by (simp add: neighbors_def)
  qed
qed

lemma scan_Nil:
  "scan nds (G, nl) = Inr (G', []) \<Longrightarrow>
     G' = G \<and> nl = [] \<and> (\<forall>n \<in> set nds. length (neighbors G n) \<noteq> 2)"
proof (induction nds arbitrary: G nl)
  case Nil
  then show ?case by simp
next
  case (Cons nd nds)
  from Cons.prems obtain G1 nl1 where c: "collapse_node nd (G, nl) = Inr (G1, nl1)"
    and s: "scan nds (G1, nl1) = Inr (G', [])"
    by (auto split: sum.splits)
  from Cons.IH[OF s] have 1: "G' = G1" "nl1 = []" "\<forall>n \<in> set nds. length (neighbors G1 n) \<noteq> 2"
    by auto
  from c 1(2) collapse_node_Nil[of nd G nl G1] have "G1 = G" "nl = []" "length (neighbors G nd) \<noteq> 2"
    by auto
  with 1 show ?case by simp
qed

lemma collapse_pass_fixed:
  assumes "collapse_pass G = Inr G'" and "length G' = length G"
  shows "G' = G \<and> (\<forall>n \<in> fst ` set G. length (neighbors G n) \<noteq> 2)"
proof -
  from assms(1) obtain G1 nl where s: "scan (map fst G) (G, []) = Inr (G1, nl)"
    by (auto simp: collapse_pass_def split: sum.splits)
  note l1 = scan_length[OF s]
  show ?thesis
  proof (cases "int (length nl) = int (length G1) - 1")
    case True
    with assms(1) s have "remove_node G1 1 = Inr G'"
      by (auto simp: collapse_pass_def split: if_splits)
    from remove_node_length[OF this] l1 assms(2) show ?thesis by simp
  next
    case False
    with assms(1) s have r: "remove_nodes nl G1 = Inr G'"
      by (auto simp: collapse_pass_def)
    from remove_nodes_length_eq[OF r] l1 assms(2) have "nl = []" by simp
    with r s have "G' = G1" "scan (map fst G) (G, []) = Inr (G1, [])" by auto
    with scan_Nil[of "map fst G" G "[]" G1] show ?thesis by auto
  qed
qed

lemma rrn_loop_all_no_degree_2:
  "rrn_loop mode G ord new_order i = Inr (G', i') \<Longrightarrow> mode = 0 \<Longrightarrow>
   (new_order = ord \<longrightarrow> (\<forall>n \<in> fst ` set G. length (neighbors G n) \<noteq> 2)) \<Longrightarrow>
   new_order = length G \<or> new_order = 0 \<Longrightarrow>
   (\<forall>n \<in> fst ` set G'. length (neighbors G' n) \<noteq> 2)"
proof (induction mode G ord new_order i rule: rrn_loop.induct)
  case (1 mode G ord new_order i)
  show ?case
  proof (cases "new_order = ord")
    case True
    with "1.prems" have "G' = G" by (simp add: rrn_loop.simps[of _ G])
    with True "1.prems" show ?thesis by simp
  next
    case False
    with "1.prems" obtain G1 where p: "collapse_pass G = Inr G1"
      by (auto simp: rrn_loop.simps[of _ G] split: sum.splits)
    show ?thesis
    proof (cases "new_order = order G1")
      case True
      with False p "1.prems" have g: "G' = G1"
        by (simp add: rrn_loop.simps[of _ G])
      from "1.prems"(4) show ?thesis
      proof
        assume "new_order = length G"
        with True have "length G1 = length G" by (simp add: order_def)
        from collapse_pass_fixed[OF p this] g show ?thesis by simp
      next
        assume "new_order = 0"
        with True have "G1 = []" by (simp add: order_def)
        with g show ?thesis by simp
      qed
    next
      case nst: False
      with False p "1.prems" have r: "rrn_loop mode G1 new_order (order G1) (i + 1) = Inr (G', i')"
        by (simp add: rrn_loop.simps[of _ G])
      from False "1.prems"(2) have c: "\<not> (mode = 1 \<and> 2 < i)" "\<not> (mode = 0 \<and> new_order = ord)" "mode \<noteq> 2"
        by auto
      show ?thesis
        by (rule "1.IH"[OF c p nst r "1.prems"(2)]) (use nst in \<open>auto simp: order_def\<close>)
    qed
  qed
qed

text \<open>
  C3. A pass that completes never returns more nodes than it was given. The graph that
  mode 0 returns has no node with exactly two neighbours, the degree that the scan
  tests; this holds for cycles too.
\<close>

theorem pass_monotone_and_fixed_point:
  "(collapse_pass G = Inr G1 \<longrightarrow> order G1 \<le> order G)
   \<and> (removeRedundantNodes G 0 = Inr G' \<longrightarrow>
        (\<forall>n \<in> fst ` set G'. length (neighbors G' n) \<noteq> 2))"
proof (intro conjI impI)
  assume "collapse_pass G = Inr G1"
  then show "order G1 \<le> order G"
    by (simp add: order_def collapse_pass_length)
next
  assume "removeRedundantNodes G 0 = Inr G'"
  then obtain i' where r: "rrn_loop 0 G (order G) 0 0 = Inr (G', i')"
    by (auto simp: removeRedundantNodes_def split: sum.splits)
  show "\<forall>n \<in> fst ` set G'. length (neighbors G' n) \<noteq> 2"
    by (rule rrn_loop_all_no_degree_2[OF r]) (auto simp: order_def)
qed

theorem pass_monotone_and_fixed_point_witness:
  "collapse_pass path5
     = Inr [(0, [(2, \<lparr>weight = 2, conductivity = 1\<rparr>)]),
            (2, [(0, \<lparr>weight = 2, conductivity = 1\<rparr>), (4, \<lparr>weight = 2, conductivity = 1\<rparr>)]),
            (4, [(2, \<lparr>weight = 2, conductivity = 1\<rparr>)])]
   \<and> order [(0, [(2, \<lparr>weight = 2, conductivity = 1\<rparr>)]),
            (2, [(0, \<lparr>weight = 2, conductivity = 1\<rparr>), (4, \<lparr>weight = 2, conductivity = 1\<rparr>)]),
            (4, [(2, \<lparr>weight = 2, conductivity = 1\<rparr>)])] \<le> order path5
   \<and> removeRedundantNodes path5 0
     = Inr [(0, [(4, \<lparr>weight = 4, conductivity = 1\<rparr>)]),
            (4, [(0, \<lparr>weight = 4, conductivity = 1\<rparr>)])]
   \<and> length (neighbors [(0, [(4, \<lparr>weight = 4, conductivity = 1\<rparr>)]),
                          (4, [(0, \<lparr>weight = 4, conductivity = 1\<rparr>)])] 0) \<noteq> 2
   \<and> length (neighbors [(0, [(4, \<lparr>weight = 4, conductivity = 1\<rparr>)]),
                          (4, [(0, \<lparr>weight = 4, conductivity = 1\<rparr>)])] 4) \<noteq> 2"
  using pass_monotone_and_fixed_point
    [of path5
        "[(0, [(2, \<lparr>weight = 2, conductivity = 1\<rparr>)]),
          (2, [(0, \<lparr>weight = 2, conductivity = 1\<rparr>), (4, \<lparr>weight = 2, conductivity = 1\<rparr>)]),
          (4, [(2, \<lparr>weight = 2, conductivity = 1\<rparr>)])]"
        "[(0, [(4, \<lparr>weight = 4, conductivity = 1\<rparr>)]),
          (4, [(0, \<lparr>weight = 4, conductivity = 1\<rparr>)])]"]
  unfolding path5_pass path5_all
  by (simp add: order_def neighbors_def path5_def)

section \<open>The component that is saved\<close>

lemma last_insort_key:
  "last (insort_key f x ys) = (if \<forall>y \<in> set ys. f y < f x then x else last ys)"
  by (induction ys) (auto simp: not_less)

lemma largest_first:
  fixes f :: "'a \<Rightarrow> nat"
  shows "xs \<noteq> [] \<Longrightarrow>
    \<exists>i < length xs. last (sort_key f (rev xs)) = xs ! i
       \<and> (\<forall>j < length xs. f (xs ! j) \<le> f (xs ! i))
       \<and> (\<forall>j < i. f (xs ! j) < f (xs ! i))"
proof (induction xs rule: rev_induct)
  case Nil
  then show ?case by simp
next
  case (snoc x xs)
  have l: "last (sort_key f (rev (xs @ [x])))
      = (if \<forall>y \<in> set xs. f y < f x then x else last (sort_key f (rev xs)))"
    by (simp add: last_insort_key)
  show ?case
  proof (cases "\<forall>y \<in> set xs. f y < f x")
    case True
    have "\<forall>j < length (xs @ [x]). f ((xs @ [x]) ! j) \<le> f x"
      using True by (auto simp: nth_append less_imp_le)
    moreover have "\<forall>j < length xs. f ((xs @ [x]) ! j) < f x"
      using True by (auto simp: nth_append)
    ultimately show ?thesis
      using l True by (intro exI[of _ "length xs"]) simp
  next
    case False
    then obtain y where y: "y \<in> set xs" "f x \<le> f y" by (auto simp: not_less)
    then have "xs \<noteq> []" by auto
    from snoc.IH[OF this] obtain i where i: "i < length xs"
      "last (sort_key f (rev xs)) = xs ! i"
      "\<forall>j < length xs. f (xs ! j) \<le> f (xs ! i)"
      "\<forall>j < i. f (xs ! j) < f (xs ! i)" by blast
    from y obtain k where "k < length xs" "xs ! k = y" by (auto simp: in_set_conv_nth)
    with i(3) y(2) have fx: "f x \<le> f (xs ! i)" by (metis le_trans)
    have "\<forall>j < length (xs @ [x]). f ((xs @ [x]) ! j) \<le> f ((xs @ [x]) ! i)"
      using i(1,3) fx by (auto simp: nth_append)
    moreover have "\<forall>j < i. f ((xs @ [x]) ! j) < f ((xs @ [x]) ! i)"
      using i(1,4) by (auto simp: nth_append)
    moreover have "last (sort_key f (rev (xs @ [x]))) = (xs @ [x]) ! i"
      using l False i(1,2) by (simp add: nth_append)
    ultimately show ?thesis
      using i(1) by (intro exI[of _ i]) simp
  qed
qed

lemma py_sorted_reverse_hd:
  "xs \<noteq> [] \<Longrightarrow> \<exists>g rest. py_sorted_reverse f xs = g # rest \<and> g = last (sort_key f (rev xs))"
proof -
  assume "xs \<noteq> []"
  then have "sort_key f (rev xs) \<noteq> []"
    by (metis length_0_conv length_rev length_sort)
  then show ?thesis
    unfolding py_sorted_reverse_def
    by (metis hd_rev list.collapse rev_is_Nil_conv list.sel(1))
qed

lemma connected_components_loop_Nil:
  "connected_components_loop G vs seen = [] \<Longrightarrow> set vs \<subseteq> set seen"
  by (induction vs arbitrary: seen) (auto simp: Let_def split: if_splits)

lemma connected_component_subgraphs_Nil:
  "connected_component_subgraphs G = [] \<longleftrightarrow> G = []"
proof
  assume "connected_component_subgraphs G = []"
  then have "connected_components_loop G (map fst G) [] = []"
    by (simp add: connected_component_subgraphs_def connected_components_def)
  from connected_components_loop_Nil[OF this] show "G = []" by simp
next
  assume "G = []"
  then show "connected_component_subgraphs G = []"
    by (simp add: connected_component_subgraphs_def connected_components_def)
qed

text \<open>
  C4. When the graph has at least two connected components, the graph that
  \<^verbatim>\<open>drawAndSave\<close> saves is one of them, no component has more nodes, and every
  component discovered before it has fewer: it is the first of the largest ones.
\<close>

theorem drawAndSave_largest_component:
  assumes "2 \<le> length (connected_component_subgraphs G)"
  shows "\<exists>i < length (connected_component_subgraphs G).
           drawAndSave G = Inr (connected_component_subgraphs G ! i)
           \<and> (\<forall>j < length (connected_component_subgraphs G).
                 order (connected_component_subgraphs G ! j)
                   \<le> order (connected_component_subgraphs G ! i))
           \<and> (\<forall>j < i. order (connected_component_subgraphs G ! j)
                   < order (connected_component_subgraphs G ! i))"
proof -
  let ?cs = "connected_component_subgraphs G"
  from assms have ne: "?cs \<noteq> []" by auto
  from py_sorted_reverse_hd[OF ne, of length] obtain g rest where
    g: "py_sorted_reverse length ?cs = g # rest" "g = last (sort_key length (rev ?cs))"
    by blast
  then have d: "drawAndSave G = Inr (last (sort_key length (rev ?cs)))"
    by (simp add: drawAndSave_def)
  from largest_first[OF ne, of length] d show ?thesis
    by (simp add: order_def)
qed

theorem drawAndSave_largest_component_witness:
  "2 \<le> length (connected_component_subgraphs
       [(0, [(1, \<lparr>weight = 1, conductivity = 1\<rparr>)]), (1, [(0, \<lparr>weight = 1, conductivity = 1\<rparr>)]),
        (2, [(3, \<lparr>weight = 2, conductivity = 2\<rparr>)]), (3, [(2, \<lparr>weight = 2, conductivity = 2\<rparr>)]),
        (4, [])])
   \<and> connected_component_subgraphs
       [(0, [(1, \<lparr>weight = 1, conductivity = 1\<rparr>)]), (1, [(0, \<lparr>weight = 1, conductivity = 1\<rparr>)]),
        (2, [(3, \<lparr>weight = 2, conductivity = 2\<rparr>)]), (3, [(2, \<lparr>weight = 2, conductivity = 2\<rparr>)]),
        (4, [])]
     = [[(0, [(1, \<lparr>weight = 1, conductivity = 1\<rparr>)]), (1, [(0, \<lparr>weight = 1, conductivity = 1\<rparr>)])],
        [(2, [(3, \<lparr>weight = 2, conductivity = 2\<rparr>)]), (3, [(2, \<lparr>weight = 2, conductivity = 2\<rparr>)])],
        [(4, [])]]
   \<and> drawAndSave
       [(0, [(1, \<lparr>weight = 1, conductivity = 1\<rparr>)]), (1, [(0, \<lparr>weight = 1, conductivity = 1\<rparr>)]),
        (2, [(3, \<lparr>weight = 2, conductivity = 2\<rparr>)]), (3, [(2, \<lparr>weight = 2, conductivity = 2\<rparr>)]),
        (4, [])]
     = Inr [(0, [(1, \<lparr>weight = 1, conductivity = 1\<rparr>)]), (1, [(0, \<lparr>weight = 1, conductivity = 1\<rparr>)])]"
  using drawAndSave_largest_component
    [of "[(0, [(1, \<lparr>weight = 1, conductivity = 1\<rparr>)]), (1, [(0, \<lparr>weight = 1, conductivity = 1\<rparr>)]),
          (2, [(3, \<lparr>weight = 2, conductivity = 2\<rparr>)]), (3, [(2, \<lparr>weight = 2, conductivity = 2\<rparr>)]),
          (4, [])]"]
  by (simp add: drawAndSave_def connected_component_subgraphs_def subgraph_def
        py_sorted_reverse_def connected_components_def neighbors_def List.union_def
        List.insert_def plain_bfs.simps)

section \<open>An empty slice\<close>

text \<open>
  C5. For a slice whose pixel values sum to zero, whatever the stages are, the slice
  writes one graph, the graph without nodes and without edges, invokes no stage, raises
  nothing, and the loop goes on with the slices that follow.
\<close>

theorem empty_slice_short_circuit:
  assumes "sum_list (map (\<lambda>row. sum_list (map unat row)) sli) = 0"
  shows "process_slice ext redundancy sli = ([WriteGpickle []], None)
       \<and> order [] = 0 \<and> edge_data [] u v = None
       \<and> Invoke st \<notin> set (fst (process_slice ext redundancy sli))
       \<and> vectorize_slices ext redundancy (sli # slices) =
           (WriteGpickle [] # fst (vectorize_slices ext redundancy slices),
            snd (vectorize_slices ext redundancy slices))"
proof -
  from assms have "np_sum sli = 0" unfolding np_sum_def by (simp only: mod_0)
  then have p: "process_slice ext redundancy sli = ([WriteGpickle []], None)"
    by (simp add: process_slice_def)
  then show ?thesis
    by (simp add: order_def edge_data_def split: prod.splits)
qed

theorem empty_slice_short_circuit_witness:
  "sum_list (map (\<lambda>row. sum_list (map unat row)) [[0, 0], [0, 0 :: 8 word]]) = 0
   \<and> process_slice raising_stages 0 [[0, 0], [0, 0]] = ([WriteGpickle []], None)
   \<and> vectorize_slices raising_stages 0 [[[0, 0], [0, 0]], [[0]]]
       = ([WriteGpickle [], WriteGpickle []], None)"
  using empty_slice_short_circuit [of "[[0, 0], [0, 0]]" raising_stages 0 _ _ _ "[[[0]]]"]
    empty_slice_short_circuit [of "[[0]]" raising_stages 0 _ _ _ "[]"]
  by simp

section \<open>The branch that removes \<^verbatim>\<open>nodelist[1]\<close>\<close>

text \<open>
  C6 fails on the code. A graph of one node without edges is well formed. Its scan
  marks nothing, so \<^verbatim>\<open>len(nodelist)\<close> is \<open>0\<close> and equals
  \<^verbatim>\<open>len(list(G.nodes())) - 1\<close>; the branch is taken and \<^verbatim>\<open>nodelist[1]\<close> looks the
  key \<open>1\<close> up in an empty dictionary, which raises \<^verbatim>\<open>KeyError\<close>. This happens in
  mode 0 and in mode 1, whatever the node is called.
\<close>

theorem single_node_KeyError:
  "removeRedundantNodes [(n, [])] 0 = Inl KeyError
   \<and> removeRedundantNodes [(n, [])] 1 = Inl KeyError"
  by (simp add: removeRedundantNodes_def rrn_loop.simps order_def collapse_pass_def
        collapse_node_def)

section \<open>The passes of mode 1\<close>

text \<open>
  The scan keeps the adjacency symmetric and never marks every node: once a node is
  marked, one of its neighbours stays unmarked, because a node with a marked neighbour
  is not marked. So a pass on a graph with nodes leaves a node.
\<close>

definition symmetric :: "graph \<Rightarrow> bool" where
  "symmetric G \<longleftrightarrow> (\<forall>u v. v \<in> set (neighbors G u) \<longrightarrow> u \<in> set (neighbors G v))"

definition adj_distinct :: "graph \<Rightarrow> bool" where
  "adj_distinct G \<longleftrightarrow> (\<forall>u d. map_of G u = Some d \<longrightarrow> distinct (map fst d))"

lemma in_neighborsE:
  assumes "v \<in> set (neighbors G u)"
  obtains d where "map_of G u = Some d" "v \<in> fst ` set d"
  using assms by (cases "map_of G u") (auto simp: neighbors_def)

lemma neighbors_Some: "map_of G u = Some d \<Longrightarrow> set (neighbors G u) = fst ` set d"
  by (simp add: neighbors_def)

lemma map_of_Some_key: "map_of G u = Some d \<Longrightarrow> u \<in> fst ` set G"
  by (metis domI dom_map_of_conv_image_fst)

lemma nx_graph_symmetric: "nx_graph G \<Longrightarrow> symmetric G"
  unfolding symmetric_def
proof (intro allI impI)
  fix u v
  assume a: "nx_graph G" and v: "v \<in> set (neighbors G u)"
  from v obtain d where d: "map_of G u = Some d" "v \<in> fst ` set d"
    by (rule in_neighborsE)
  then have "(u, d) \<in> set G" by (auto dest: map_of_SomeD)
  with a d(2) show "u \<in> set (neighbors G v)"
    unfolding nx_graph_def list_all_iff by fastforce
qed

lemma nx_graph_adj_distinct: "nx_graph G \<Longrightarrow> adj_distinct G"
  unfolding nx_graph_def adj_distinct_def list_all_iff
  by (auto dest!: map_of_SomeD)

lemma neighbors_keys:
  assumes "v \<in> set (neighbors G u)"
  shows "u \<in> fst ` set G"
proof -
  from assms obtain d where "map_of G u = Some d" by (rule in_neighborsE)
  then show ?thesis by (rule map_of_Some_key)
qed

lemma neighbors_set_adj_list:
  "neighbors (set_adj G u v a) x =
     (if x = u then (case map_of G u of None \<Rightarrow> [] | Some d \<Rightarrow> map fst (AList.update v a d))
      else neighbors G x)"
  by (simp add: neighbors_def map_of_set_adj split: option.splits)

lemma neighbors_set_adj:
  "set (neighbors (set_adj G u v a) x) =
     (if x = u \<and> u \<in> fst ` set G then insert v (set (neighbors G u)) else set (neighbors G x))"
proof (cases "map_of G u")
  case None
  then have "u \<notin> fst ` set G" by (metis map_of_eq_None_iff)
  moreover have "neighbors G u = []" using None by (simp add: neighbors_def)
  ultimately show ?thesis using None by (simp add: neighbors_set_adj_list)
next
  case (Some d)
  then have k: "u \<in> fst ` set G" by (rule map_of_Some_key)
  have "set (map fst (AList.update v a d)) = insert v (fst ` set d)"
    using dom_update[of v a d] by simp
  then show ?thesis
    using Some k by (simp add: neighbors_set_adj_list neighbors_Some)
qed

lemma keys_set_adj: "map fst (set_adj G u v a) = map fst G"
  unfolding set_adj_def by (induction G) auto

lemma neighbors_add_edge:
  assumes "u \<in> fst ` set G" "v \<in> fst ` set G"
  shows "set (neighbors (add_edge G u v a) x) =
     set (neighbors G x) \<union> (if x = u then {v} else {}) \<union> (if x = v then {u} else {})"
proof -
  have "v \<in> fst ` set (set_adj G u v a)"
    using assms(2) keys_set_adj[of G u v a] by (metis set_map)
  then show ?thesis
    using assms by (auto simp: add_edge_present neighbors_set_adj)
qed

lemma keys_add_edge:
  "u \<in> fst ` set G \<Longrightarrow> v \<in> fst ` set G \<Longrightarrow> map fst (add_edge G u v a) = map fst G"
  by (simp add: add_edge_present keys_set_adj)

lemma symmetric_add_edge:
  assumes "symmetric G" "u \<in> fst ` set G" "v \<in> fst ` set G"
  shows "symmetric (add_edge G u v a)"
  using assms unfolding symmetric_def
  by (auto simp: neighbors_add_edge split: if_splits)

lemma adj_distinct_set_adj: "adj_distinct G \<Longrightarrow> adj_distinct (set_adj G u v a)"
  unfolding adj_distinct_def
  by (auto simp: map_of_set_adj distinct_update split: option.splits if_splits)

lemma adj_distinct_add_edge:
  "adj_distinct G \<Longrightarrow> u \<in> fst ` set G \<Longrightarrow> v \<in> fst ` set G \<Longrightarrow>
     adj_distinct (add_edge G u v a)"
  by (simp add: add_edge_present adj_distinct_set_adj)


text \<open>The invariant of the scan.\<close>

definition scan_inv :: "graph \<Rightarrow> node list \<Rightarrow> node set \<Rightarrow> bool" where
  "scan_inv G nl P \<longleftrightarrow>
     symmetric G \<and> adj_distinct G \<and> set nl \<subseteq> P
     \<and> (nl = [] \<or> (\<exists>u \<in> fst ` set G. u \<notin> set nl
           \<and> (u \<in> P \<or> (\<exists>v \<in> set nl. v \<in> set (neighbors G u)))))"

lemma collapse_node_inv:
  assumes inv: "scan_inv G nl P" and nd: "nd \<notin> P"
    and c: "collapse_node nd (G, nl) = Inr (G', nl')"
  shows "scan_inv G' nl' (insert nd P) \<and> map fst G' = map fst G"
proof -
  from c obtain d where d: "map_of G nd = Some d"
    by (auto simp: collapse_node_def split: option.splits)
  from inv have sym: "symmetric G" and ad: "adj_distinct G" and sub: "set nl \<subseteq> P"
    and w: "nl = [] \<or> (\<exists>u \<in> fst ` set G. u \<notin> set nl
           \<and> (u \<in> P \<or> (\<exists>v \<in> set nl. v \<in> set (neighbors G u))))"
    by (auto simp: scan_inv_def)
  show ?thesis
  proof (cases "\<exists>n1 e1 n2 e2. d = [(n1, e1), (n2, e2)]")
    case False
    with c d have "G' = G" "nl' = nl"
      by (auto simp: collapse_node_def split: list.splits)
    with inv show ?thesis by (auto simp: scan_inv_def)
  next
    case True
    then obtain n1 e1 n2 e2 where dd: "d = [(n1, e1), (n2, e2)]" by blast
    let ?m = "merged_edge e1 e2"
    from c d dd have g: "G' = add_edge G n1 n2 ?m"
      and len: "length (add_edge G n1 n2 ?m) = length G"
      and nl': "nl' = (if n1 \<notin> set nl \<and> n2 \<notin> set nl
                       then (if nd \<in> set nl then nl else nl @ [nd]) else nl)"
      by (auto simp: collapse_node_def Let_def split: if_splits)
    from len have k: "n1 \<in> fst ` set G" "n2 \<in> fst ` set G"
      by (simp_all add: add_edge_length_eq)
    from ad d have "distinct (map fst d)" unfolding adj_distinct_def by blast
    then have ne: "n1 \<noteq> n2" using dd by simp
    have nb: "set (neighbors G nd) = {n1, n2}"
      using d dd by (simp add: neighbors_Some)
    have mono: "\<And>x. set (neighbors G x) \<subseteq> set (neighbors G' x)"
      using k g by (auto simp: neighbors_add_edge)
    have keys: "map fst G' = map fst G" using k g by (simp add: keys_add_edge)
    have sym': "symmetric G'" using sym k g by (simp add: symmetric_add_edge)
    have ad': "adj_distinct G'" using ad k g by (simp add: adj_distinct_add_edge)
    have ndnl: "nd \<notin> set nl" using sub nd by auto
    have "nl' = [] \<or> (\<exists>u \<in> fst ` set G'. u \<notin> set nl'
           \<and> (u \<in> insert nd P \<or> (\<exists>v \<in> set nl'. v \<in> set (neighbors G' u))))"
    proof (cases "n1 \<notin> set nl \<and> n2 \<notin> set nl")
      case False
      then have e: "nl' = nl" "nl \<noteq> []" using nl' by auto
      with w obtain u where u: "u \<in> fst ` set G" "u \<notin> set nl"
        "u \<in> P \<or> (\<exists>v \<in> set nl. v \<in> set (neighbors G u))" by auto
      have "u \<in> fst ` set G'" using u(1) keys by (metis set_map)
      moreover have "u \<in> insert nd P \<or> (\<exists>v \<in> set nl'. v \<in> set (neighbors G' u))"
        using u(3) mono e(1) by auto
      ultimately show ?thesis using u(2) e(1) by blast
    next
      case True
      then have e: "nl' = nl @ [nd]" using nl' ndnl by simp
      show ?thesis
      proof (cases "nl = []")
        case True
        obtain u where u: "u \<in> {n1, n2}" "u \<noteq> nd" using ne by (cases "n1 = nd") auto
        then have "u \<in> set (neighbors G nd)" using nb by simp
        then have "nd \<in> set (neighbors G u)" using sym by (simp add: symmetric_def)
        then have "nd \<in> set (neighbors G' u)" using mono by auto
        moreover have "u \<in> fst ` set G'" using u(1) k keys by (metis insertE set_map singletonD)
        ultimately show ?thesis using u(2) e True by auto
      next
        case False
        with w obtain u where u: "u \<in> fst ` set G" "u \<notin> set nl"
          "u \<in> P \<or> (\<exists>v \<in> set nl. v \<in> set (neighbors G u))" by auto
        have "u \<noteq> nd"
        proof
          assume "u = nd"
          with u(3) nd obtain v where "v \<in> set nl" "v \<in> set (neighbors G nd)" by auto
          with nb True show False by auto
        qed
        moreover have "u \<in> fst ` set G'" using u(1) keys by (metis set_map)
        moreover have "u \<in> insert nd P \<or> (\<exists>v \<in> set nl'. v \<in> set (neighbors G' u))"
          using u(3) mono e by auto
        ultimately show ?thesis using u(2) e by auto
      qed
    qed
    moreover have "set nl' \<subseteq> insert nd P" using nl' sub by auto
    ultimately show ?thesis using sym' ad' keys by (simp add: scan_inv_def)
  qed
qed

lemma scan_inv_scan:
  assumes "scan_inv G nl P" "distinct nds" "set nds \<inter> P = {}"
    and "scan nds (G, nl) = Inr (G', nl')"
  shows "scan_inv G' nl' (P \<union> set nds) \<and> map fst G' = map fst G"
  using assms
proof (induction nds arbitrary: G nl P)
  case Nil
  then show ?case by simp
next
  case (Cons nd nds)
  from Cons.prems(4) obtain G1 nl1 where c: "collapse_node nd (G, nl) = Inr (G1, nl1)"
    and s: "scan nds (G1, nl1) = Inr (G', nl')"
    by (auto split: sum.splits)
  from Cons.prems(3) have "nd \<notin> P" by auto
  from collapse_node_inv[OF Cons.prems(1) this c]
  have 1: "scan_inv G1 nl1 (insert nd P)" "map fst G1 = map fst G" by auto
  have "distinct nds" "set nds \<inter> insert nd P = {}" using Cons.prems(2,3) by auto
  from Cons.IH[OF 1(1) this s] 1(2) show ?case by auto
qed


lemma remove_node_keys:
  assumes "remove_node G n = Inr G'"
  shows "map fst G' = removeAll n (map fst G)"
proof -
  from assms obtain d :: adjdict and G1
    where "del_edges (map fst d) n G = Inr G1" "G' = AList.delete n G1"
    by (auto simp: remove_node_def split: option.splits sum.splits)
  then show ?thesis by (simp add: delete_keys del_edges_keys)
qed

lemma remove_nodes_keys:
  "remove_nodes nl G = Inr G' \<Longrightarrow> set (map fst G) - set nl \<subseteq> set (map fst G')"
proof (induction nl arbitrary: G)
  case Nil
  then show ?case by simp
next
  case (Cons n nl)
  from Cons.prems obtain G1 where r: "remove_node G n = Inr G1" and s: "remove_nodes nl G1 = Inr G'"
    by (auto split: sum.splits)
  from Cons.IH[OF s] remove_node_keys[OF r] show ?case by auto
qed

lemma collapse_pass_not_Nil:
  assumes nx: "nx_graph G" and p: "collapse_pass G = Inr G'" and ne: "G \<noteq> []"
  shows "G' \<noteq> []"
proof -
  from p obtain G1 nl where s: "scan (map fst G) (G, []) = Inr (G1, nl)"
    by (auto simp: collapse_pass_def split: sum.splits)
  have "scan_inv G [] {}"
    using nx by (simp add: scan_inv_def nx_graph_symmetric nx_graph_adj_distinct)
  moreover have dk: "distinct (map fst G)" using nx by (simp add: nx_graph_def)
  ultimately have inv: "scan_inv G1 nl ({} \<union> set (map fst G))" and keys: "map fst G1 = map fst G"
    using scan_inv_scan[OF _ _ _ s, of "{}"] by auto
  show ?thesis
  proof (cases "int (length nl) = int (length G1) - 1")
    case True
    with p s have one: "1 \<in> set nl" and r: "remove_node G1 1 = Inr G'"
      by (auto simp: collapse_pass_def split: if_splits)
    show ?thesis
    proof
      assume "G' = []"
      with remove_node_keys[OF r] keys have "removeAll 1 (map fst G) = []" by simp
      then have sub: "set (map fst G) \<subseteq> {1}"
        by (metis Diff_eq_empty_iff list.set(1) set_removeAll)
      have "card (set (map fst G)) \<le> card {1::nat}"
        by (rule card_mono) (use sub in auto)
      then have "length G \<le> 1" using distinct_card[OF dk] by simp
      moreover have "length G1 = length G" using keys by (metis length_map)
      ultimately have "length nl = 0" using True ne by (cases G) auto
      with one show False by simp
    qed
  next
    case False
    with p s have r: "remove_nodes nl G1 = Inr G'"
      by (auto simp: collapse_pass_def)
    from inv have "nl = [] \<or> (\<exists>u \<in> fst ` set G1. u \<notin> set nl)"
      by (auto simp: scan_inv_def)
    then show ?thesis
    proof
      assume "nl = []"
      with r keys ne show ?thesis by auto
    next
      assume "\<exists>u \<in> fst ` set G1. u \<notin> set nl"
      then obtain u where "u \<in> set (map fst G1)" "u \<notin> set nl" by auto
      with remove_nodes_keys[OF r] have "u \<in> set (map fst G')" by auto
      then show ?thesis by auto
    qed
  qed
qed


lemma path5_loop1:
  "rrn_loop 1 path5 (order path5) 0 0
     = Inr ([(0, [(4, \<lparr>weight = 4, conductivity = 1\<rparr>)]),
             (4, [(0, \<lparr>weight = 4, conductivity = 1\<rparr>)])], 3)"
  by (simp add: path5_def rrn_loop.simps pass_unfold merged_edge_def order_def)

lemma edge2_pass: "collapse_pass edge2 = Inr edge2"
  by (simp add: edge2_def pass_unfold)

lemma edge2_loop1: "rrn_loop 1 edge2 (order edge2) 0 0 = Inr (edge2, 2)"
  by (simp add: rrn_loop.simps[of 1 edge2] edge2_pass) (simp add: edge2_def order_def)

lemma nx_graph_edge2: "nx_graph edge2"
  by (simp add: nx_graph_def edge2_def neighbors_def)

lemma nx_graph_path5: "nx_graph path5"
  by (simp add: nx_graph_def path5_def neighbors_def)

text \<open>
  C7. On a networkx graph, mode 1 returns after at most three passes, and its result is
  the result of exactly that many passes. It returns after fewer than three only when
  the last pass it made removed no node. (The test after the first pass compares the
  node count with \<open>0\<close>, which only the empty graph meets.)
\<close>

theorem half_mode_three_passes:
  assumes nx: "nx_graph G" and r: "rrn_loop 1 G (order G) 0 0 = Inr (G', i)"
  shows "1 \<le> i \<and> i \<le> 3 \<and> passes i G = Inr G'
       \<and> (i < 3 \<longrightarrow>
            (\<exists>H. passes (i - 1) G = Inr H \<and> collapse_pass H = Inr G' \<and> order G' = order H))"
proof -
  from r obtain G1 where p1: "collapse_pass G = Inr G1"
    by (auto simp: rrn_loop.simps[of 1 G] split: sum.splits)
  show ?thesis
  proof (cases "0 = order G1")
    case True
    with r p1 have e: "G' = G1" "i = 1" by (simp_all add: rrn_loop.simps[of 1 G])
    from True have "G1 = []" by (simp add: order_def)
    with collapse_pass_not_Nil[OF nx p1] have "G = []" by auto
    with e p1 True show ?thesis by (simp add: order_def)
  next
    case False
    with r p1 have r1: "rrn_loop 1 G1 0 (order G1) 1 = Inr (G', i)"
      by (simp add: rrn_loop.simps[of 1 G])
    then obtain G2 where p2: "collapse_pass G1 = Inr G2"
      by (auto simp: rrn_loop.simps[of 1 G1] split: sum.splits)
    show ?thesis
    proof (cases "order G1 = order G2")
      case True
      with r1 p2 have e: "G' = G2" "i = 2" by (simp_all add: rrn_loop.simps[of 1 G1])
      have "passes 2 G = Inr G2" using p1 p2 by (simp add: numeral_2_eq_2)
      moreover have "passes 1 G = Inr G1" using p1 by simp
      ultimately show ?thesis using e p2 True by auto
    next
      case ne: False
      with r1 p2 have r2: "rrn_loop 1 G2 (order G1) (order G2) (Suc (Suc 0)) = Inr (G', i)"
        by (simp add: rrn_loop.simps[of 1 G1])
      then obtain G3 where p3: "collapse_pass G2 = Inr G3"
        by (auto simp: rrn_loop.simps[of 1 G2] split: sum.splits)
      with r2 have e: "G' = G3" "i = 3"
        by (simp_all add: rrn_loop.simps[of 1 G2] rrn_loop.simps[of 1 G3] numeral_3_eq_3
              split: if_splits)
      have "passes 3 G = Inr G3" using p1 p2 p3 by (simp add: numeral_3_eq_3)
      with e show ?thesis by simp
    qed
  qed
qed

theorem half_mode_three_passes_witness:
  "rrn_loop 1 edge2 (order edge2) 0 0 = Inr (edge2, 2)
   \<and> passes 2 edge2 = Inr edge2
   \<and> passes (2 - 1) edge2 = Inr edge2
   \<and> collapse_pass edge2 = Inr edge2
   \<and> (2 :: nat) < 3
   \<and> passes 3 path5 = Inr [(0, [(4, \<lparr>weight = 4, conductivity = 1\<rparr>)]),
                              (4, [(0, \<lparr>weight = 4, conductivity = 1\<rparr>)])]"
  using half_mode_three_passes [OF nx_graph_edge2 edge2_loop1]
    half_mode_three_passes [OF nx_graph_path5 path5_loop1]
  by (simp add: edge2_loop1 edge2_pass numeral_2_eq_2)

section \<open>Properties of the contour stage\<close>

lemma thresholdContours_loop_filter:
  "thresholdContours_loop cs t acc = acc @ filter (\<lambda>c. t < int (length c)) (map fst cs)"
  by (induction cs t acc rule: thresholdContours_loop.induct) auto

lemma thresholdContours_filter:
  "thresholdContours contours t = filter (\<lambda>c. t < int (length c)) contours"
  by (simp add: thresholdContours_def thresholdContours_loop_filter)

text \<open>
  C8. \<^verbatim>\<open>thresholdContours(contours, t)\<close> returns exactly the contours with more than
  \<open>t\<close> points, in their order and unchanged; at the pipeline's threshold 3 every
  surviving contour has at least 4 points and no contour with fewer than 4 points
  survives.
\<close>

theorem thresholdContours_spec:
  "thresholdContours contours t = filter (\<lambda>c. t < int (length c)) contours
   \<and> (\<forall>c \<in> set (thresholdContours contours 3). 4 \<le> length c)
   \<and> (\<forall>c \<in> set contours. length c < 4 \<longrightarrow> c \<notin> set (thresholdContours contours 3))"
  by (auto simp: thresholdContours_filter)

theorem thresholdContours_spec_witness:
  "thresholdContours [[(0, 0), (1, 0), (1, 1), (0, 1)], [(5, 5), (6, 5), (6, 6)]] 3
     = [[(0, 0), (1, 0), (1, 1), (0, 1 :: real) :: point]]
   \<and> [(0, 0), (1, 0), (1, 1), (0, 1)]
        \<in> set (thresholdContours
          [[(0, 0), (1, 0), (1, 1), (0, 1)], [(5, 5), (6, 5), (6, 6 :: real) :: point]] 3)
   \<and> 4 \<le> length [(0, 0), (1, 0), (1, 1), (0, 1 :: real) :: point]
   \<and> [(5, 5), (6, 5), (6, 6)]
        \<in> set [[(0, 0), (1, 0), (1, 1), (0, 1)], [(5, 5), (6, 5), (6, 6 :: real) :: point]]
   \<and> length [(5, 5), (6, 5), (6, 6 :: real) :: point] < 4
   \<and> [(5, 5), (6, 5), (6, 6)]
        \<notin> set (thresholdContours
          [[(0, 0), (1, 0), (1, 1), (0, 1)], [(5, 5), (6, 5), (6, 6 :: real) :: point]] 3)"
  using thresholdContours_spec
    [of "[[(0, 0), (1, 0), (1, 1), (0, 1)], [(5, 5), (6, 5), (6, 6 :: real) :: point]]" 3]
  by simp
section \<open>Contours that are all too short\<close>

text \<open>
  C9. When every extracted contour has fewer than 4 points, nothing survives the
  threshold, the loop that looks for the longest contour never assigns
  \<^verbatim>\<open>longuest_index\<close>, and \<^verbatim>\<open>createContours\<close> raises instead of returning.
\<close>

theorem createContours_unbound:
  "\<forall>c \<in> set raw_contours. length c < 4 \<Longrightarrow>
     createContours raw_contours = Inl UnboundLocalError"
proof -
  assume a: "\<forall>c \<in> set raw_contours. length c < 4"
  have "thresholdContours (flattenContours raw_contours) 3 = []"
    using a by (auto simp: thresholdContours_filter flattenContours_def filter_empty_conv)
  then show ?thesis by (simp add: createContours_def)
qed

theorem createContours_unbound_witness:
  "length [(0, 0), (1, 0), (0, 1 :: int)] < 4
   \<and> createContours [[(0, 0), (1, 0), (0, 1)]] = Inl UnboundLocalError"
  using createContours_unbound [of "[[(0, 0), (1, 0), (0, 1)]]"] by simp

section \<open>Saving a graph without nodes\<close>

text \<open>
  C10. On a graph with no node the component list is empty and \<^verbatim>\<open>Gcc[0]\<close> raises
  \<^verbatim>\<open>IndexError\<close>; on every graph with a node \<^verbatim>\<open>drawAndSave\<close> has a component to
  save. So the graph must have a node, which \<^verbatim>\<open>cleanAndSaveGraph\<close> does not check:
  given a graph without nodes it raises the same error for each value of
  \<^verbatim>\<open>redundancy\<close>.
\<close>

lemma removeRedundantNodes_Nil:
  "removeRedundantNodes [] 0 = Inr []" "removeRedundantNodes [] 1 = Inr []"
  by (simp_all add: removeRedundantNodes_def rrn_loop.simps order_def collapse_pass_def)

lemma drawAndSave_Nil: "drawAndSave [] = Inl IndexError"
  by (simp add: drawAndSave_def py_sorted_reverse_def
        connected_component_subgraphs_def connected_components_def)

lemma drawAndSave_nonempty:
  assumes "order G \<noteq> 0"
  shows "\<exists>G0. drawAndSave G = Inr G0"
proof -
  from assms have "connected_component_subgraphs G \<noteq> []"
    by (simp add: connected_component_subgraphs_Nil order_def)
  from py_sorted_reverse_hd[OF this, of length] show ?thesis
    by (auto simp: drawAndSave_def)
qed

theorem drawAndSave_empty:
  assumes "order G = 0"
  shows "drawAndSave G = Inl IndexError
       \<and> cleanAndSaveGraph G 0 = Inl IndexError
       \<and> cleanAndSaveGraph G 1 = Inl IndexError
       \<and> cleanAndSaveGraph G 2 = Inl IndexError"
proof -
  from assms have "G = []" by (simp add: order_def)
  then show ?thesis
    by (simp add: cleanAndSaveGraph_def removeRedundantNodes_Nil drawAndSave_Nil)
qed

theorem drawAndSave_empty_witness:
  "order [] = 0 \<and> drawAndSave [] = Inl IndexError
   \<and> cleanAndSaveGraph [] 0 = Inl IndexError
   \<and> cleanAndSaveGraph [] 1 = Inl IndexError
   \<and> cleanAndSaveGraph [] 2 = Inl IndexError"
  using drawAndSave_empty [of "[]"] by (simp add: order_def)

end
